theory Spec2Isabelle
  imports Main "HOL-Library.Char_ord"
begin

section \<open>Character-level text generation: data preparation and sampling\<close>

text \<open>
  A shallow embedding of \<^verbatim>\<open>2020.09/lstm_swesb_text_gen.py\<close>. The script's own
  logic is embedded as it is written: the vocabulary and the two mappings, the id
  encoding of the text, the windowing into (X, Y) pairs and the sampling loop of
  \<^verbatim>\<open>generate_text\<close>. The numerical collaborators (the Keras model and
  \<^verbatim>\<open>tf.random.categorical\<close>) are parameters: a model is a function from its
  recurrent state and a sequence of ids to the new state and one score vector per
  position; the sampler is a function from the state of the random source and a score
  vector to the drawn id and the next state of the random source.

  A Python \<^verbatim>\<open>str\<close> is a sequence of code points and a character is a string of
  one code point. The functions that only compare, sort or look up characters take any
  linearly ordered type for them. \<^verbatim>\<open>get_dataset_and_info\<close>, which stores the
  vocabulary in a NumPy array, takes a character as its code point, a natural number,
  ordered as Python orders characters: NumPy has to know the code point 0.
\<close>

subsection \<open>Errors\<close>

text \<open>
  \<^verbatim>\<open>KeyError\<close>: a dictionary subscript with a missing key.
  \<^verbatim>\<open>IndexError\<close>: an array subscript out of range.
  \<^verbatim>\<open>InvalidArgumentError\<close>: a tensor slice out of bounds.
\<close>

datatype py_error = KeyError | IndexError | InvalidArgumentError

subsection \<open>Constants\<close>

definition SEQUENCE_LEN :: nat where
  "SEQUENCE_LEN = 100"

subsection \<open>Vocabulary and mappings\<close>

text \<open>\<^verbatim>\<open>vocab = sorted(set(text))\<close>\<close>

definition sorted_set :: "'c::linorder list \<Rightarrow> 'c list" where
  "sorted_set text = sorted_list_of_set (set text)"

text \<open>
  \<^verbatim>\<open>char2id = {c: i for i, c in enumerate(vocab)}\<close>: the comprehension stores the
  pairs \<open>(i, c)\<close> of \<^verbatim>\<open>enumerate(vocab)\<close> in order, counting from 0, a later pair
  replacing an earlier one with the same key.
\<close>

fun enumerate_into :: "nat \<Rightarrow> 'c list \<Rightarrow> ('c \<rightharpoonup> nat) \<Rightarrow> ('c \<rightharpoonup> nat)" where
  "enumerate_into i [] m = m"
| "enumerate_into i (c # cs) m = enumerate_into (Suc i) cs (m(c \<mapsto> i))"

definition enumerate_dict :: "'c list \<Rightarrow> ('c \<rightharpoonup> nat)" where
  "enumerate_dict vs = enumerate_into 0 vs Map.empty"

text \<open>\<^verbatim>\<open>[char2id[c] for c in text]\<close>: the first missing key raises.\<close>

fun chars_to_ids :: "('c \<rightharpoonup> nat) \<Rightarrow> 'c list \<Rightarrow> py_error + nat list" where
  "chars_to_ids m [] = Inr []"
| "chars_to_ids m (c # cs) =
     (case m c of
        None \<Rightarrow> Inl KeyError
      | Some i \<Rightarrow> (case chars_to_ids m cs of Inl e \<Rightarrow> Inl e | Inr js \<Rightarrow> Inr (i # js)))"

text \<open>
  \<^verbatim>\<open>id2char = np.array(vocab)\<close>: an array of dtype \<^verbatim>\<open><U1\<close>, one code point per
  element (of dtype \<^verbatim>\<open>float64\<close> and with no element for the empty vocabulary).
  NumPy reads an element back as a \<^verbatim>\<open>str\<close> without its trailing code points 0: the
  element stored for the character U+0000 reads as the empty string, the element stored
  for any other character as the string of that character.
\<close>

definition np_array :: "nat list \<Rightarrow> nat list list" where
  "np_array vs = map (\<lambda>c. if c = 0 then [] else [c]) vs"

text \<open>
  \<^verbatim>\<open>char2id[s]\<close> for a string \<open>s\<close>: the keys of \<^verbatim>\<open>char2id\<close> are strings of one
  character, so that any other string is a missing key.
\<close>

definition dict_getitem_str :: "('c \<rightharpoonup> nat) \<Rightarrow> 'c list \<Rightarrow> py_error + nat" where
  "dict_getitem_str m s =
     (case s of
        [c] \<Rightarrow> (case m c of None \<Rightarrow> Inl KeyError | Some i \<Rightarrow> Inr i)
      | _ \<Rightarrow> Inl KeyError)"

subsection \<open>Windowing\<close>

text \<open>\<^verbatim>\<open>X = seq[:-1]; Y = seq[1:]\<close>\<close>

definition seq_to_supervised :: "'a list \<Rightarrow> 'a list \<times> 'a list" where
  "seq_to_supervised seq = (butlast seq, tl seq)"

text \<open>
  \<^verbatim>\<open>dataset.batch(n, drop_remainder=True)\<close> over the elements of a list. The
  script calls it with \<^verbatim>\<open>SEQUENCE_LEN + 1\<close> only, so the batch size is positive;
  for the batch size 0 the function returns no batch.
\<close>

function batch :: "nat \<Rightarrow> 'a list \<Rightarrow> 'a list list" where
  "batch n xs = (if n = 0 \<or> length xs < n then [] else take n xs # batch n (drop n xs))"
  by pat_completeness auto
termination
  by (relation "measure (\<lambda>(n, xs). length xs)") auto

declare batch.simps [simp del]

record 'c info =
  vocab :: "'c list"
  char2id :: "'c \<rightharpoonup> nat"
  id2char :: "'c list list"
  text_as_ids :: "nat list"

text \<open>
  \<^verbatim>\<open>get_dataset_and_info\<close>, from the decoded text on. The sequence length is the
  module constant \<^verbatim>\<open>SEQUENCE_LEN\<close> in the script and a parameter here. The dataset
  is the list of its elements in order.
\<close>

definition get_dataset_and_info ::
  "nat \<Rightarrow> nat list \<Rightarrow> py_error + ((nat list \<times> nat list) list \<times> nat info)" where
  "get_dataset_and_info seq_len text =
     (let vs = sorted_set text;
          c2i = enumerate_dict vs;
          i2c = np_array vs
      in case chars_to_ids c2i text of
           Inl e \<Rightarrow> Inl e
         | Inr ids \<Rightarrow>
             (let char_sequences = batch (seq_len + 1) ids;
                  dataset = map seq_to_supervised char_sequences
              in Inr (dataset,
                      \<lparr>vocab = vs, char2id = c2i, id2char = i2c, text_as_ids = ids\<rparr>)))"

subsection \<open>Sampling\<close>

text \<open>\<^verbatim>\<open>id2char[pred_id]\<close>, for an id that is not negative.\<close>

definition getitem :: "'a list \<Rightarrow> nat \<Rightarrow> py_error + 'a" where
  "getitem xs i = (if i < length xs then Inr (xs ! i) else Inl IndexError)"

text \<open>
  \<^verbatim>\<open>model(char_ids)[:, -1]\<close>: the score vector of the last position. The model
  returns one score vector per position of its input (``the given shape is
  [1, len(start_string), 70] (first iteration) or [1, 1, 70]''), and the slice of a
  sequence with no position is out of bounds.
\<close>

definition last_position :: "'y list \<Rightarrow> py_error + 'y" where
  "last_position ys = (if ys = [] then Inl InvalidArgumentError else Inr (last ys))"

text \<open>
  The loop \<^verbatim>\<open>for _ in range(num_generate)\<close>, on the recurrent state of the model,
  the state of the random source and \<^verbatim>\<open>generated_text\<close>, the list of the strings
  \<^verbatim>\<open>id2char[pred_id]\<close> appended so far. The body never assigns \<^verbatim>\<open>char_ids\<close>.
\<close>

fun generate_loop ::
  "('s \<Rightarrow> nat list \<Rightarrow> 's \<times> 'y list) \<Rightarrow> ('r \<Rightarrow> 'y \<Rightarrow> nat \<times> 'r) \<Rightarrow> 'c list list \<Rightarrow> nat list \<Rightarrow>
   nat \<Rightarrow> 's \<times> 'r \<times> 'c list list \<Rightarrow> py_error + ('s \<times> 'r \<times> 'c list list)" where
  "generate_loop model categorical i2c char_ids 0 st = Inr st"
| "generate_loop model categorical i2c char_ids (Suc n) (s, r, generated_text) =
     (case model s char_ids of (s', ys) \<Rightarrow>
        (case last_position ys of
           Inl e \<Rightarrow> Inl e
         | Inr Y \<Rightarrow>
             (case categorical r Y of (pred_id, r') \<Rightarrow>
                (case getitem i2c pred_id of
                   Inl e \<Rightarrow> Inl e
                 | Inr c \<Rightarrow>
                     generate_loop model categorical i2c char_ids n
                       (s', r', generated_text @ [c])))))"

text \<open>
  \<^verbatim>\<open>generate_text\<close>, returning the string with the states the run leaves behind.
  \<^verbatim>\<open>model.reset_states()\<close> replaces the recurrent state \<open>s\<close> the model arrives
  with by \<open>zero_state\<close>; \<^verbatim>\<open>range\<close> of a negative number is empty;
  \<^verbatim>\<open>''.join(generated_text)\<close> concatenates the strings.
\<close>

definition generate_run ::
  "('s \<Rightarrow> nat list \<Rightarrow> 's \<times> 'y list) \<Rightarrow> 's \<Rightarrow> ('r \<Rightarrow> 'y \<Rightarrow> nat \<times> 'r) \<Rightarrow> 's \<Rightarrow> 'r \<Rightarrow>
   'c list \<Rightarrow> ('c \<rightharpoonup> nat) \<Rightarrow> 'c list list \<Rightarrow> int \<Rightarrow> py_error + ('c list \<times> 's \<times> 'r)" where
  "generate_run model zero_state categorical s r start_string c2i i2c num_generate =
     (case chars_to_ids c2i start_string of
        Inl e \<Rightarrow> Inl e
      | Inr char_ids \<Rightarrow>
          (case generate_loop model categorical i2c char_ids (nat num_generate)
                  (zero_state, r, []) of
             Inl e \<Rightarrow> Inl e
           | Inr (s', r', generated_text) \<Rightarrow>
               Inr (start_string @ concat generated_text, s', r')))"

definition generate_text ::
  "('s \<Rightarrow> nat list \<Rightarrow> 's \<times> 'y list) \<Rightarrow> 's \<Rightarrow> ('r \<Rightarrow> 'y \<Rightarrow> nat \<times> 'r) \<Rightarrow> 's \<Rightarrow> 'r \<Rightarrow>
   'c list \<Rightarrow> ('c \<rightharpoonup> nat) \<Rightarrow> 'c list list \<Rightarrow> int \<Rightarrow> py_error + 'c list" where
  "generate_text model zero_state categorical s r start_string c2i i2c num_generate =
     map_sum id fst
       (generate_run model zero_state categorical s r start_string c2i i2c num_generate)"

subsection \<open>Sampling with collaborators that are relations\<close>

text \<open>
  The same loop and the same function for a model and a sampler that need not be
  functions of their arguments: \<open>model_rel s ids (s', ys)\<close> holds when the model in the
  state \<open>s\<close> may answer \<open>ys\<close> to \<open>ids\<close> and go to the state \<open>s'\<close>, and
  \<open>categorical_rel r Y (pred_id, r')\<close> when the sampler may draw \<open>pred_id\<close>. One rule
  per outcome of an iteration: no iteration is left, the slice of the scores fails, the
  index of \<^verbatim>\<open>id2char\<close> fails, or the string is appended and the loop goes on.
\<close>

inductive generate_steps ::
  "('s \<Rightarrow> nat list \<Rightarrow> 's \<times> 'y list \<Rightarrow> bool) \<Rightarrow> ('r \<Rightarrow> 'y \<Rightarrow> nat \<times> 'r \<Rightarrow> bool) \<Rightarrow>
   'c list list \<Rightarrow> nat list \<Rightarrow>
   nat \<Rightarrow> 's \<times> 'r \<times> 'c list list \<Rightarrow> py_error + ('s \<times> 'r \<times> 'c list list) \<Rightarrow> bool"
  for model_rel categorical_rel i2c char_ids where
  finished:
    "generate_steps model_rel categorical_rel i2c char_ids 0 st (Inr st)"
| no_position:
    "model_rel s char_ids (s', ys) \<Longrightarrow> last_position ys = Inl e \<Longrightarrow>
     generate_steps model_rel categorical_rel i2c char_ids (Suc n) (s, r, generated_text) (Inl e)"
| bad_index:
    "model_rel s char_ids (s', ys) \<Longrightarrow> last_position ys = Inr Y \<Longrightarrow>
     categorical_rel r Y (pred_id, r') \<Longrightarrow> getitem i2c pred_id = Inl e \<Longrightarrow>
     generate_steps model_rel categorical_rel i2c char_ids (Suc n) (s, r, generated_text) (Inl e)"
| iteration:
    "model_rel s char_ids (s', ys) \<Longrightarrow> last_position ys = Inr Y \<Longrightarrow>
     categorical_rel r Y (pred_id, r') \<Longrightarrow> getitem i2c pred_id = Inr c \<Longrightarrow>
     generate_steps model_rel categorical_rel i2c char_ids n (s', r', generated_text @ [c]) res \<Longrightarrow>
     generate_steps model_rel categorical_rel i2c char_ids (Suc n) (s, r, generated_text) res"

inductive generate_text_rel ::
  "('s \<Rightarrow> nat list \<Rightarrow> 's \<times> 'y list \<Rightarrow> bool) \<Rightarrow> 's \<Rightarrow> ('r \<Rightarrow> 'y \<Rightarrow> nat \<times> 'r \<Rightarrow> bool) \<Rightarrow> 's \<Rightarrow> 'r \<Rightarrow>
   'c list \<Rightarrow> ('c \<rightharpoonup> nat) \<Rightarrow> 'c list list \<Rightarrow> int \<Rightarrow> py_error + 'c list \<Rightarrow> bool"
  for model_rel zero_state categorical_rel s r start_string c2i i2c num_generate where
  seed_error:
    "chars_to_ids c2i start_string = Inl e \<Longrightarrow>
     generate_text_rel model_rel zero_state categorical_rel s r start_string c2i i2c
       num_generate (Inl e)"
| loop_error:
    "chars_to_ids c2i start_string = Inr char_ids \<Longrightarrow>
     generate_steps model_rel categorical_rel i2c char_ids (nat num_generate)
       (zero_state, r, []) (Inl e) \<Longrightarrow>
     generate_text_rel model_rel zero_state categorical_rel s r start_string c2i i2c
       num_generate (Inl e)"
| returned:
    "chars_to_ids c2i start_string = Inr char_ids \<Longrightarrow>
     generate_steps model_rel categorical_rel i2c char_ids (nat num_generate)
       (zero_state, r, []) (Inr (s', r', generated_text)) \<Longrightarrow>
     generate_text_rel model_rel zero_state categorical_rel s r start_string c2i i2c
       num_generate (Inr (start_string @ concat generated_text))"

text \<open>A model or a sampler that is a function, as a relation.\<close>

definition as_relation :: "('a \<Rightarrow> 'b \<Rightarrow> 'c) \<Rightarrow> 'a \<Rightarrow> 'b \<Rightarrow> 'c \<Rightarrow> bool" where
  "as_relation f a b res = (res = f a b)"

subsection \<open>Collaborators and strings for concrete runs\<close>

text \<open>
  A model whose recurrent state is the list of the sequences it has been fed so far,
  returning one (empty) score vector per position of its input, and a sampler whose
  random source is a counter: it draws the ids 0, 1, 0, 1, ...
\<close>

definition recording_model :: "nat list list \<Rightarrow> nat list \<Rightarrow> nat list list \<times> unit list" where
  "recording_model s ids = (s @ [ids], map (\<lambda>_. ()) ids)"

definition counter_sampler :: "nat \<Rightarrow> unit \<Rightarrow> nat \<times> nat" where
  "counter_sampler r Y = (r mod 2, Suc r)"

text \<open>A sampler that may draw either of the ids 0 and 1, whatever the random source.\<close>

definition free_sampler :: "nat \<Rightarrow> unit \<Rightarrow> nat \<times> nat \<Rightarrow> bool" where
  "free_sampler r Y res = (res = (0, Suc r) \<or> res = (1, Suc r))"

text \<open>The code points of a string of ASCII characters.\<close>

definition codepoints :: "string \<Rightarrow> nat list" where
  "codepoints cs = map of_char cs"

section \<open>Properties of the vocabulary and the mappings\<close>

lemma set_sorted_set: "set (sorted_set text) = set text"
  by (simp add: sorted_set_def)

lemma distinct_sorted_set: "distinct (sorted_set text)"
  by (simp add: sorted_set_def)

lemma strict_sorted_set: "sorted_wrt (<) (sorted_set text)"
  by (simp add: sorted_set_def)

lemma enumerate_into_notin: "c \<notin> set vs \<Longrightarrow> enumerate_into k vs m c = m c"
  by (induction vs arbitrary: k m) auto

lemma enumerate_into_nth:
  "distinct vs \<Longrightarrow> j < length vs \<Longrightarrow> enumerate_into k vs m (vs ! j) = Some (k + j)"
proof (induction vs arbitrary: k m j)
  case Nil
  then show ?case by simp
next
  case (Cons v vs)
  show ?case
  proof (cases j)
    case 0
    with Cons.prems show ?thesis by (simp add: enumerate_into_notin)
  next
    case (Suc j')
    with Cons.prems Cons.IH [of j' "Suc k" "m(v \<mapsto> k)"] show ?thesis
      by (simp del: fun_upd_apply)
  qed
qed

lemma enumerate_dict_nth:
  "distinct vs \<Longrightarrow> j < length vs \<Longrightarrow> enumerate_dict vs (vs ! j) = Some j"
  using enumerate_into_nth [of vs j 0 Map.empty] by (simp add: enumerate_dict_def)

lemma enumerate_dict_None: "c \<notin> set vs \<Longrightarrow> enumerate_dict vs c = None"
  by (simp add: enumerate_dict_def enumerate_into_notin)

lemma dom_enumerate_dict: "distinct vs \<Longrightarrow> dom (enumerate_dict vs) = set vs"
proof (rule set_eqI)
  fix c
  assume d: "distinct vs"
  show "c \<in> dom (enumerate_dict vs) \<longleftrightarrow> c \<in> set vs"
  proof
    assume "c \<in> dom (enumerate_dict vs)"
    then show "c \<in> set vs"
      using enumerate_dict_None [of c vs] by (cases "c \<in> set vs") auto
  next
    assume "c \<in> set vs"
    then obtain j where "j < length vs" "vs ! j = c" by (auto simp: in_set_conv_nth)
    with d enumerate_dict_nth [of vs j] show "c \<in> dom (enumerate_dict vs)" by auto
  qed
qed

lemma chars_to_ids_total:
  "set cs \<subseteq> dom m \<Longrightarrow> chars_to_ids m cs = Inr (map (\<lambda>c. the (m c)) cs)"
  by (induction cs) auto

lemma chars_to_ids_Inl: "chars_to_ids m cs = Inl e \<Longrightarrow> e = KeyError"
  by (induction cs arbitrary: e) (auto split: option.splits sum.splits)

lemma chars_to_ids_KeyError:
  "c \<in> set cs \<Longrightarrow> m c = None \<Longrightarrow> chars_to_ids m cs = Inl KeyError"
proof (induction cs)
  case Nil
  then show ?case by simp
next
  case (Cons a cs)
  show ?case
  proof (cases "m a")
    case None
    then show ?thesis by simp
  next
    case (Some i)
    with Cons.prems have "c \<in> set cs" by auto
    with Cons.IH Cons.prems have "chars_to_ids m cs = Inl KeyError" by simp
    with Some show ?thesis by simp
  qed
qed

text \<open>The text is encoded with the mapping built from its own characters: no key is missing.\<close>

lemma get_dataset_and_info_Inr:
  "get_dataset_and_info n text =
     Inr (map seq_to_supervised
            (batch (n + 1) (map (\<lambda>c. the (enumerate_dict (sorted_set text) c)) text)),
          \<lparr>vocab = sorted_set text,
           char2id = enumerate_dict (sorted_set text),
           id2char = np_array (sorted_set text),
           text_as_ids = map (\<lambda>c. the (enumerate_dict (sorted_set text) c)) text\<rparr>)"
proof -
  have "set text \<subseteq> dom (enumerate_dict (sorted_set text))"
    by (simp add: dom_enumerate_dict distinct_sorted_set set_sorted_set)
  then have "chars_to_ids (enumerate_dict (sorted_set text)) text =
      Inr (map (\<lambda>c. the (enumerate_dict (sorted_set text) c)) text)"
    by (rule chars_to_ids_total)
  then show ?thesis by (simp add: get_dataset_and_info_def Let_def)
qed

lemma length_np_array: "length (np_array vs) = length vs"
  by (simp add: np_array_def)

lemma np_array_nth:
  "i < length vs \<Longrightarrow> np_array vs ! i = (if vs ! i = 0 then [] else [vs ! i])"
  by (simp add: np_array_def)

lemma codepoints_abc: "codepoints ''abc'' = [97, 98, 99]"
  by (simp add: codepoints_def)

lemma codepoints_abcabcabc:
  "codepoints ''abcabcabc'' = [97, 98, 99, 97, 98, 99, 97, 98, 99]"
  by (simp add: codepoints_def)

lemma sorted_set_abc: "sorted_set (codepoints ''abcabcabc'') = codepoints ''abc''"
  unfolding codepoints_abc codepoints_abcabcabc by code_simp

lemma count_list_distinct:
  "distinct xs \<Longrightarrow> count_list xs c = (if c \<in> set xs then 1 else 0)"
  by (induction xs) auto

lemma getitem_nth: "i < length xs \<Longrightarrow> getitem xs i = Inr (xs ! i)"
  by (simp add: getitem_def)

text \<open>
  Claim C2. For every input text, \<^verbatim>\<open>get_dataset_and_info\<close> returns, and the
  vocabulary it returns holds each character of the text exactly once and no other
  character, in strictly ascending order of the characters.
\<close>

theorem vocab_exactly_once_sorted:
  "\<exists>ds info. get_dataset_and_info n text = Inr (ds, info) \<and>
     vocab info = sorted_list_of_set (set text) \<and>
     set (vocab info) = set text \<and>
     distinct (vocab info) \<and>
     (\<forall>c. count_list (vocab info) c = (if c \<in> set text then 1 else 0)) \<and>
     sorted_wrt (<) (vocab info)"
proof -
  have "\<forall>c. count_list (sorted_set text) c = (if c \<in> set text then 1 else 0)"
    using count_list_distinct [of "sorted_set text"] distinct_sorted_set [of "text"]
    by (simp add: set_sorted_set)
  then show ?thesis
    by (simp add: get_dataset_and_info_Inr set_sorted_set distinct_sorted_set
        strict_sorted_set) (simp add: sorted_set_def)
qed

theorem vocab_exactly_once_sorted_witness:
  "\<exists>ds info. get_dataset_and_info 3 (codepoints ''abcabcabc'') = Inr (ds, info) \<and>
     vocab info = codepoints ''abc'' \<and>
     count_list (vocab info) 98 = 1 \<and> count_list (vocab info) 122 = 0"
proof -
  from vocab_exactly_once_sorted [of 3 "codepoints ''abcabcabc''"]
  obtain ds info where run: "get_dataset_and_info 3 (codepoints ''abcabcabc'') = Inr (ds, info)"
    and cnt: "\<forall>c. count_list (vocab info) c =
        (if c \<in> set (codepoints ''abcabcabc'') then 1 else 0)"
    by blast
  from run have v: "vocab info = codepoints ''abc''"
    by (auto simp: get_dataset_and_info_Inr sorted_set_abc)
  from cnt have "count_list (vocab info) 98 = 1" by (simp add: codepoints_abcabcabc)
  moreover from cnt have "count_list (vocab info) 122 = 0" by (simp add: codepoints_abcabcabc)
  ultimately show ?thesis using run v by blast
qed

text \<open>
  The two mappings are inverses for a text without the character U+0000: every
  character \<open>c\<close> of the vocabulary has an id \<open>i\<close>, and \<open>id2char[i]\<close> is the string of
  \<open>c\<close>; every id \<open>i\<close> below the vocabulary size is a valid index of \<open>id2char\<close>, and
  \<open>char2id[id2char[i]] = i\<close>.
\<close>

lemma char2id_id2char_inverse_without_NUL:
  assumes "0 \<notin> set text"
  shows "\<exists>ds info. get_dataset_and_info n text = Inr (ds, info) \<and>
     (\<forall>c\<in>set (vocab info). \<exists>i. char2id info c = Some i \<and> getitem (id2char info) i = Inr [c]) \<and>
     (\<forall>i<length (vocab info).
        \<exists>s. getitem (id2char info) i = Inr s \<and> dict_getitem_str (char2id info) s = Inr i)"
proof -
  let ?vs = "sorted_set text"
  have d: "distinct ?vs" by (rule distinct_sorted_set)
  have nz: "?vs ! j \<noteq> 0" if "j < length ?vs" for j
  proof -
    from that have "?vs ! j \<in> set ?vs" by simp
    then have "?vs ! j \<in> set text" by (simp only: set_sorted_set)
    with assms show ?thesis by metis
  qed
  have fwd: "\<exists>i. enumerate_dict ?vs c = Some i \<and> getitem (np_array ?vs) i = Inr [c]"
    if "c \<in> set ?vs" for c
  proof -
    from that obtain j where j: "j < length ?vs" "?vs ! j = c"
      by (auto simp: in_set_conv_nth)
    with enumerate_dict_nth [OF d, of j] have "enumerate_dict ?vs c = Some j" by simp
    moreover from j nz [of j] have "getitem (np_array ?vs) j = Inr [c]"
      by (simp add: getitem_def length_np_array np_array_nth)
    ultimately show ?thesis by blast
  qed
  have bwd: "\<exists>s. getitem (np_array ?vs) i = Inr s \<and> dict_getitem_str (enumerate_dict ?vs) s = Inr i"
    if "i < length ?vs" for i
  proof -
    from that nz [of i] have "getitem (np_array ?vs) i = Inr [?vs ! i]"
      by (simp add: getitem_def length_np_array np_array_nth)
    moreover from that enumerate_dict_nth [OF d, of i]
    have "dict_getitem_str (enumerate_dict ?vs) [?vs ! i] = Inr i"
      by (simp add: dict_getitem_str_def)
    ultimately show ?thesis by blast
  qed
  from fwd bwd show ?thesis
    by (simp add: get_dataset_and_info_Inr)
qed

lemma sorted_set_NUL_a: "sorted_set [0, 97 :: nat] = [0, 97]"
  by code_simp

text \<open>
  Claim C3 says that the two mappings are exact inverses. For the text of the two
  characters U+0000 and \<open>a\<close> the vocabulary is these two characters and \<^verbatim>\<open>char2id\<close>
  gives U+0000 the id 0, but \<open>id2char[0]\<close> is the empty string, not the character
  U+0000, and \<open>char2id[id2char[0]]\<close> raises \<^verbatim>\<open>KeyError\<close> instead of giving 0.
\<close>

theorem id2char_reads_NUL_as_empty_string:
  "\<exists>ds info. get_dataset_and_info SEQUENCE_LEN [0, 97] = Inr (ds, info) \<and>
     vocab info = [0, 97] \<and>
     char2id info 0 = Some 0 \<and>
     getitem (id2char info) 0 = Inr [] \<and>
     dict_getitem_str (char2id info) [] = Inl KeyError \<and>
     char2id info 97 = Some 1 \<and>
     getitem (id2char info) 1 = Inr [97]"
  by (simp add: get_dataset_and_info_Inr sorted_set_NUL_a enumerate_dict_def np_array_def
      getitem_def dict_getitem_str_def)

text \<open>
  Claim C10. \<^verbatim>\<open>char2id\<close> is defined exactly on the vocabulary and is a bijection
  from it onto the ids below the vocabulary size, the \<open>i\<close>-th character of the sorted
  vocabulary having the id \<open>i\<close>, so that it is strictly increasing; the encoded text
  is as long as the text, is the text read through \<^verbatim>\<open>char2id\<close>, and each of its
  entries is below the vocabulary size and a valid index of \<^verbatim>\<open>id2char\<close>.
\<close>

theorem char2id_bijection_increasing:
  "\<exists>ds info. get_dataset_and_info n text = Inr (ds, info) \<and>
     dom (char2id info) = set (vocab info) \<and>
     bij_betw (\<lambda>c. the (char2id info c)) (set (vocab info)) {..<length (vocab info)} \<and>
     (\<forall>i<length (vocab info). char2id info (vocab info ! i) = Some i) \<and>
     (\<forall>c\<in>set (vocab info). \<forall>d\<in>set (vocab info).
        c < d \<longrightarrow> the (char2id info c) < the (char2id info d)) \<and>
     length (text_as_ids info) = length text \<and>
     map Some (text_as_ids info) = map (char2id info) text \<and>
     (\<forall>j\<in>set (text_as_ids info).
        j < length (vocab info) \<and> (\<exists>c. getitem (id2char info) j = Inr c))"
proof -
  let ?vs = "sorted_set text"
  let ?m = "enumerate_dict ?vs"
  have d: "distinct ?vs" by (rule distinct_sorted_set)
  have nth: "?m (?vs ! i) = Some i" if "i < length ?vs" for i
    using that by (rule enumerate_dict_nth [OF d])
  have dom: "dom ?m = set ?vs" by (rule dom_enumerate_dict [OF d])
  have bij: "bij_betw (\<lambda>c. the (?m c)) (set ?vs) {..<length ?vs}"
  proof (rule bij_betw_byWitness [where f' = "\<lambda>i. ?vs ! i"])
    show "\<forall>c\<in>set ?vs. ?vs ! the (?m c) = c"
      using nth by (auto simp: in_set_conv_nth)
    show "\<forall>i\<in>{..<length ?vs}. the (?m (?vs ! i)) = i"
      using nth by simp
    show "(\<lambda>c. the (?m c)) ` set ?vs \<subseteq> {..<length ?vs}"
      using nth by (auto simp: in_set_conv_nth)
    show "(\<lambda>i. ?vs ! i) ` {..<length ?vs} \<subseteq> set ?vs" by auto
  qed
  have mono: "the (?m c) < the (?m e)" if "c \<in> set ?vs" "e \<in> set ?vs" "c < e" for c e
  proof -
    from that obtain i j where i: "i < length ?vs" "?vs ! i = c"
      and j: "j < length ?vs" "?vs ! j = e"
      by (auto simp: in_set_conv_nth)
    have "i < j"
    proof (rule ccontr)
      assume "\<not> i < j"
      then have "j \<le> i" by simp
      with i have "?vs ! j \<le> ?vs ! i"
        using strict_sorted_set [of "text"]
        by (metis le_neq_implies_less less_imp_le order_refl sorted_wrt_nth_less)
      with i j that show False by simp
    qed
    with nth [OF i(1)] nth [OF j(1)] i j show ?thesis by simp
  qed
  have enc: "map Some (map (\<lambda>c. the (?m c)) text) = map ?m text"
  proof -
    have "Some (the (?m c)) = ?m c" if "c \<in> set text" for c
    proof -
      from that dom have "c \<in> dom ?m" by (simp add: set_sorted_set)
      then show ?thesis by auto
    qed
    then show ?thesis by simp
  qed
  have rng: "the (?m c) < length ?vs" if "c \<in> set text" for c
  proof -
    from that have "c \<in> set ?vs" by (simp add: set_sorted_set)
    then obtain i where "i < length ?vs" "?vs ! i = c" by (auto simp: in_set_conv_nth)
    with nth [of i] show ?thesis by simp
  qed
  from dom bij nth mono enc rng show ?thesis
    by (simp add: get_dataset_and_info_Inr getitem_def length_np_array)
qed

theorem char2id_bijection_increasing_witness:
  "\<exists>ds info. get_dataset_and_info 3 (codepoints ''abcabcabc'') = Inr (ds, info) \<and>
     vocab info = codepoints ''abc'' \<and>
     char2id info 99 = Some 2 \<and>
     the (char2id info 97) < the (char2id info 99) \<and>
     length (text_as_ids info) = 9"
proof -
  from char2id_bijection_increasing [of 3 "codepoints ''abcabcabc''"]
  obtain ds info where run: "get_dataset_and_info 3 (codepoints ''abcabcabc'') = Inr (ds, info)"
    and nth: "\<forall>i<length (vocab info). char2id info (vocab info ! i) = Some i"
    and mono: "\<forall>c\<in>set (vocab info). \<forall>d\<in>set (vocab info).
        c < d \<longrightarrow> the (char2id info c) < the (char2id info d)"
    and len: "length (text_as_ids info) = length (codepoints ''abcabcabc'')"
    by blast
  from run have "vocab info = codepoints ''abc''"
    by (auto simp: get_dataset_and_info_Inr sorted_set_abc)
  then have v: "vocab info = [97, 98, 99]" by (simp add: codepoints_abc)
  have "(2::nat) < length (vocab info)" using v by simp
  with nth have "char2id info (vocab info ! 2) = Some 2" by blast
  with v have c: "char2id info 99 = Some 2" by simp
  from mono v have m: "the (char2id info 97) < the (char2id info 99)" by simp
  from len have "length (text_as_ids info) = 9" by (simp add: codepoints_abcabcabc)
  with run v c m show ?thesis by (simp add: codepoints_abc)
qed

section \<open>Properties of the windowing\<close>

lemma batch_short: "length xs < n \<Longrightarrow> batch n xs = []"
  by (subst batch.simps) simp

lemma batch_step:
  "0 < n \<Longrightarrow> n \<le> length xs \<Longrightarrow> batch n xs = take n xs # batch n (drop n xs)"
  by (subst batch.simps) simp

lemma length_batch: "0 < n \<Longrightarrow> length (batch n xs) = length xs div n"
proof (induction n xs rule: batch.induct)
  case (1 n xs)
  show ?case
  proof (cases "length xs < n")
    case True
    then show ?thesis by (simp add: batch_short)
  next
    case False
    with "1.prems" have ge: "n \<le> length xs" by simp
    with "1.prems" "1.IH" have "length (batch n (drop n xs)) = (length xs - n) div n"
      by simp
    with ge "1.prems" show ?thesis
      by (simp add: batch_step le_div_geq)
  qed
qed

lemma batch_elem_length: "w \<in> set (batch n xs) \<Longrightarrow> length w = n"
proof (induction n xs rule: batch.induct)
  case (1 n xs)
  show ?case
  proof (cases "n = 0 \<or> length xs < n")
    case True
    with "1.prems" show ?thesis by (subst (asm) batch.simps) simp
  next
    case False
    with "1.prems" have "w = take n xs \<or> w \<in> set (batch n (drop n xs))"
      by (subst (asm) batch.simps) simp
    with False "1.IH" show ?thesis by auto
  qed
qed

lemma batch_nth:
  "0 < n \<Longrightarrow> k < length (batch n xs) \<Longrightarrow> batch n xs ! k = take n (drop (k * n) xs)"
proof (induction n xs arbitrary: k rule: batch.induct)
  case (1 n xs)
  show ?case
  proof (cases "length xs < n")
    case True
    with "1.prems" show ?thesis by (simp add: batch_short)
  next
    case False
    then have ge: "n \<le> length xs" by simp
    have step: "batch n xs = take n xs # batch n (drop n xs)"
      using "1.prems"(1) ge by (rule batch_step)
    show ?thesis
    proof (cases k)
      case 0
      then show ?thesis by (simp add: step)
    next
      case (Suc k')
      with "1.prems" step have "k' < length (batch n (drop n xs))" by simp
      with "1.IH" [of k'] "1.prems"(1) False
      have "batch n (drop n xs) ! k' = take n (drop (k' * n) (drop n xs))" by simp
      with Suc show ?thesis by (simp add: step add.commute)
    qed
  qed
qed

lemma concat_batch: "0 < n \<Longrightarrow> concat (batch n xs) = take (length xs div n * n) xs"
proof (induction n xs rule: batch.induct)
  case (1 n xs)
  show ?case
  proof (cases "length xs < n")
    case True
    then show ?thesis by (simp add: batch_short)
  next
    case False
    then have ge: "n \<le> length xs" by simp
    have step: "batch n xs = take n xs # batch n (drop n xs)"
      using "1.prems" ge by (rule batch_step)
    from "1.IH" "1.prems" False
    have ih: "concat (batch n (drop n xs)) = take ((length xs - n) div n * n) (drop n xs)"
      by simp
    from ge "1.prems" have d: "length xs div n = Suc ((length xs - n) div n)"
      by (simp add: le_div_geq)
    have "take (n + (length xs - n) div n * n) xs
          = take n xs @ take ((length xs - n) div n * n) (drop n xs)"
      by (rule take_add)
    with ih d step show ?thesis by simp
  qed
qed

lemma seq_to_supervised_shift:
  "seq_to_supervised w = (X, Y) \<Longrightarrow> length w = Suc n \<Longrightarrow>
   length X = n \<and> length Y = n \<and> (\<forall>i. Suc i < n \<longrightarrow> Y ! i = X ! Suc i)"
  by (auto simp: seq_to_supervised_def nth_butlast nth_tl)


lemma nat_ids_abc:
  "map (\<lambda>c. the (enumerate_dict (codepoints ''abc'') c)) (codepoints ''abcabcabc'') =
     [0, 1, 2, 0, 1, 2, 0, 1, 2]"
  by (simp add: enumerate_dict_def codepoints_abc codepoints_abcabcabc)

lemma batch_abc:
  "batch (3 + 1) [0, 1, 2, 0, 1, 2, 0, 1, 2 :: nat] = [[0, 1, 2, 0], [1, 2, 0, 1]]"
  by code_simp

lemma np_array_abc:
  "np_array (codepoints ''abc'') = [codepoints ''a'', codepoints ''b'', codepoints ''c'']"
  by (simp add: np_array_def codepoints_def)

lemma dataset_abc:
  "get_dataset_and_info 3 (codepoints ''abcabcabc'') =
     Inr ([([0, 1, 2], [1, 2, 0]), ([1, 2, 0], [2, 0, 1])],
          \<lparr>vocab = codepoints ''abc'', char2id = enumerate_dict (codepoints ''abc''),
           id2char = [codepoints ''a'', codepoints ''b'', codepoints ''c''],
           text_as_ids = [0, 1, 2, 0, 1, 2, 0, 1, 2]\<rparr>)"
  by (simp only: get_dataset_and_info_Inr sorted_set_abc nat_ids_abc batch_abc np_array_abc)
    (simp add: seq_to_supervised_def)

lemma supervised_take_drop:
  assumes "Suc n \<le> length d"
  shows "seq_to_supervised (take (Suc n) d) = (take n d, take n (tl d))"
proof -
  from assms have "butlast (take (Suc n) d) = take n d"
    by (simp add: butlast_take)
  moreover have "tl (take (Suc n) d) = take n (tl d)"
    by (simp add: tl_take)
  ultimately show ?thesis by (simp add: seq_to_supervised_def)
qed

lemma batch_nth_supervised:
  assumes "k < length (batch (Suc n) xs)"
  shows "batch (Suc n) xs ! k = take (Suc n) (drop (k * Suc n) xs)"
    and "seq_to_supervised (batch (Suc n) xs ! k) =
           (take n (drop (k * Suc n) xs), take n (drop (k * Suc n + 1) xs))"
proof -
  let ?d = "drop (k * Suc n) xs"
  show c: "batch (Suc n) xs ! k = take (Suc n) ?d"
    using assms batch_nth [of "Suc n" k xs] by simp
  from assms have "batch (Suc n) xs ! k \<in> set (batch (Suc n) xs)" by simp
  then have "length (batch (Suc n) xs ! k) = Suc n" by (rule batch_elem_length)
  with c have "length (take (Suc n) ?d) = Suc n" by simp
  then have ld: "Suc n \<le> length ?d" by simp
  have "tl ?d = drop (k * Suc n + 1) xs"
    by (simp only: tl_drop drop_Suc Suc_eq_plus1 [symmetric])
  with supervised_take_drop [OF ld] c
  show "seq_to_supervised (batch (Suc n) xs ! k) =
           (take n ?d, take n (drop (k * Suc n + 1) xs))"
    by simp
qed

text \<open>
  Claim C4. Every pair \<open>(X, Y)\<close> of the dataset comes from a chunk \<open>w\<close> of
  \<open>seq_len + 1\<close> ids, \<open>X\<close> being \<open>w\<close> without its last id and \<open>Y\<close> being \<open>w\<close>
  without its first id; \<open>X\<close> and \<open>Y\<close> have the length \<open>seq_len\<close>, and
  \<open>Y[i] = X[i + 1]\<close> for every \<open>i\<close> with \<open>i + 1 < seq_len\<close>.
\<close>

theorem window_shift_by_one:
  assumes "get_dataset_and_info n text = Inr (ds, info)"
      and "(X, Y) \<in> set ds"
  shows "(\<exists>w. length w = n + 1 \<and> X = butlast w \<and> Y = tl w) \<and>
         length X = n \<and> length Y = n \<and>
         (\<forall>i. i + 1 < n \<longrightarrow> Y ! i = X ! (i + 1))"
proof -
  from assms(1) have "ds = map seq_to_supervised (batch (n + 1) (text_as_ids info))"
    by (auto simp: get_dataset_and_info_Inr)
  with assms(2) obtain w where w: "w \<in> set (batch (n + 1) (text_as_ids info))"
    and xy: "seq_to_supervised w = (X, Y)" by auto
  from w have len: "length w = Suc n" using batch_elem_length [of w "n + 1"] by simp
  from xy have "X = butlast w" "Y = tl w" by (auto simp: seq_to_supervised_def)
  with len seq_to_supervised_shift [OF xy len] show ?thesis by auto
qed

theorem window_shift_by_one_witness:
  "get_dataset_and_info 3 (codepoints ''abcabcabc'') =
     Inr ([([0, 1, 2], [1, 2, 0]), ([1, 2, 0], [2, 0, 1])],
          \<lparr>vocab = codepoints ''abc'', char2id = enumerate_dict (codepoints ''abc''),
           id2char = [codepoints ''a'', codepoints ''b'', codepoints ''c''],
           text_as_ids = [0, 1, 2, 0, 1, 2, 0, 1, 2]\<rparr>) \<and>
   length [1, 2, 0 :: nat] = 3 \<and> length [2, 0, 1 :: nat] = 3 \<and>
   [2, 0, 1 :: nat] ! 0 = [1, 2, 0] ! 1 \<and> [2, 0, 1 :: nat] ! 1 = [1, 2, 0] ! 2"
  using window_shift_by_one [OF dataset_abc, of "[1, 2, 0]" "[2, 0, 1]"] dataset_abc
  by simp

text \<open>
  Claim C5. The dataset is made of consecutive chunks of exactly \<open>seq_len + 1\<close> ids,
  which concatenated are the first \<open>(L div (seq_len + 1)) * (seq_len + 1)\<close> ids of
  the encoded text of length \<open>L\<close>: the \<open>k\<close>-th chunk starts at the position
  \<open>k * (seq_len + 1)\<close>, the rest of the text is dropped and nothing is padded. The
  number of pairs is \<open>L div (seq_len + 1)\<close>, and a text shorter than \<open>seq_len + 1\<close>
  gives no pair.
\<close>

theorem windows_partition_drop_remainder:
  "\<exists>ds info chunks. get_dataset_and_info n text = Inr (ds, info) \<and>
     ds = map seq_to_supervised chunks \<and>
     (\<forall>w\<in>set chunks. length w = n + 1) \<and>
     concat chunks = take (length text div (n + 1) * (n + 1)) (text_as_ids info) \<and>
     length (text_as_ids info) = length text \<and>
     length ds = length text div (n + 1) \<and>
     (\<forall>k<length ds.
        chunks ! k = take (n + 1) (drop (k * (n + 1)) (text_as_ids info)) \<and>
        ds ! k = (take n (drop (k * (n + 1)) (text_as_ids info)),
                  take n (drop (k * (n + 1) + 1) (text_as_ids info)))) \<and>
     (length text < n + 1 \<longrightarrow> ds = [])"
proof -
  define ids where "ids = map (\<lambda>c. the (enumerate_dict (sorted_set text) c)) text"
  define chunks where "chunks = batch (Suc n) ids"
  define ds where "ds = map seq_to_supervised chunks"
  define info where "info = \<lparr>vocab = sorted_set text,
     char2id = enumerate_dict (sorted_set text),
     id2char = np_array (sorted_set text), text_as_ids = ids\<rparr>"
  have ids: "text_as_ids info = ids" by (simp add: info_def)
  have l: "length ids = length text" by (simp add: ids_def)
  have run: "get_dataset_and_info n text = Inr (ds, info)"
    unfolding ds_def chunks_def info_def ids_def
    by (simp only: get_dataset_and_info_Inr Suc_eq_plus1)
  have elems: "\<forall>w\<in>set chunks. length w = n + 1"
    using batch_elem_length [of _ "Suc n" ids] by (auto simp: chunks_def)
  have cat: "concat chunks = take (length text div (n + 1) * (n + 1)) ids"
    using concat_batch [of "Suc n" ids] l by (simp add: chunks_def)
  have len: "length ds = length text div (n + 1)"
    using length_batch [of "Suc n" ids] l by (simp add: ds_def chunks_def)
  have nth: "\<forall>k<length ds.
        chunks ! k = take (n + 1) (drop (k * (n + 1)) ids) \<and>
        ds ! k = (take n (drop (k * (n + 1)) ids), take n (drop (k * (n + 1) + 1) ids))"
  proof (intro allI impI)
    fix k
    assume "k < length ds"
    then have k: "k < length (batch (Suc n) ids)" by (simp add: ds_def chunks_def)
    from batch_nth_supervised [OF k] k
    show "chunks ! k = take (n + 1) (drop (k * (n + 1)) ids) \<and>
        ds ! k = (take n (drop (k * (n + 1)) ids), take n (drop (k * (n + 1) + 1) ids))"
      by (simp add: ds_def chunks_def)
  qed
  have short: "length text < n + 1 \<longrightarrow> ds = []"
    using l by (simp add: ds_def chunks_def batch_short)
  have "get_dataset_and_info n text = Inr (ds, info) \<and>
     ds = map seq_to_supervised chunks \<and>
     (\<forall>w\<in>set chunks. length w = n + 1) \<and>
     concat chunks = take (length text div (n + 1) * (n + 1)) (text_as_ids info) \<and>
     length (text_as_ids info) = length text \<and>
     length ds = length text div (n + 1) \<and>
     (\<forall>k<length ds.
        chunks ! k = take (n + 1) (drop (k * (n + 1)) (text_as_ids info)) \<and>
        ds ! k = (take n (drop (k * (n + 1)) (text_as_ids info)),
                  take n (drop (k * (n + 1) + 1) (text_as_ids info)))) \<and>
     (length text < n + 1 \<longrightarrow> ds = [])"
    unfolding ids using run elems cat l len nth short ds_def by (intro conjI)
  then show ?thesis by blast
qed

theorem windows_partition_drop_remainder_witness:
  "\<exists>ds info. get_dataset_and_info 3 (codepoints ''abcabcabc'') = Inr (ds, info) \<and>
     length ds = 2 \<and>
     ds ! 1 = (take 3 (drop 4 (text_as_ids info)), take 3 (drop 5 (text_as_ids info))) \<and>
     (\<exists>ds' info'. get_dataset_and_info SEQUENCE_LEN (codepoints ''abc'') = Inr (ds', info') \<and>
        ds' = [])"
proof -
  from windows_partition_drop_remainder [of 3 "codepoints ''abcabcabc''"]
  obtain ds info where run: "get_dataset_and_info 3 (codepoints ''abcabcabc'') = Inr (ds, info)"
    and len: "length ds = length (codepoints ''abcabcabc'') div (3 + 1)"
    and nth: "\<forall>k<length ds.
        ds ! k = (take 3 (drop (k * (3 + 1)) (text_as_ids info)),
                  take 3 (drop (k * (3 + 1) + 1) (text_as_ids info)))"
    by blast
  from len have l2: "length ds = 2" by (simp add: codepoints_def)
  then have "(1::nat) < length ds" by simp
  with nth have "ds ! 1 = (take 3 (drop (1 * (3 + 1)) (text_as_ids info)),
                  take 3 (drop (1 * (3 + 1) + 1) (text_as_ids info)))" by blast
  then have n1: "ds ! 1 = (take 3 (drop 4 (text_as_ids info)), take 3 (drop 5 (text_as_ids info)))"
    by simp
  from windows_partition_drop_remainder [of SEQUENCE_LEN "codepoints ''abc''"]
  obtain ds' info' where
    run': "get_dataset_and_info SEQUENCE_LEN (codepoints ''abc'') = Inr (ds', info')"
    and short: "length (codepoints ''abc'') < SEQUENCE_LEN + 1 \<longrightarrow> ds' = []"
    by blast
  from short have "ds' = []" by (simp add: SEQUENCE_LEN_def codepoints_def)
  with run run' l2 n1 show ?thesis by blast
qed

text \<open>
  Claim C8, as the code has it. For the text \<open>abcabcabc\<close> and the sequence length 3
  the vocabulary is \<open>abc\<close> with the ids 0, 1, 2, \<^verbatim>\<open>id2char\<close> holds the strings
  \<open>a\<close>, \<open>b\<close>, \<open>c\<close>, the encoded text is \<open>[0,1,2,0,1,2,0,1,2]\<close>, and the nine ids
  give two chunks of four ids, \<open>[0,1,2,0]\<close> and \<open>[1,2,0,1]\<close>, hence two pairs:
  \<open>X = [0,1,2]\<close>, \<open>Y = [1,2,0]\<close> and \<open>X = [1,2,0]\<close>, \<open>Y = [2,0,1]\<close>. The one id left
  over is dropped.
\<close>

theorem abcabcabc_two_windows:
  "\<exists>info. get_dataset_and_info 3 (codepoints ''abcabcabc'') =
       Inr ([([0, 1, 2], [1, 2, 0]), ([1, 2, 0], [2, 0, 1])], info) \<and>
     vocab info = codepoints ''abc'' \<and>
     map (char2id info) (codepoints ''abc'') = [Some 0, Some 1, Some 2] \<and>
     dom (char2id info) = set (codepoints ''abc'') \<and>
     id2char info = [codepoints ''a'', codepoints ''b'', codepoints ''c''] \<and>
     text_as_ids info = [0, 1, 2, 0, 1, 2, 0, 1, 2] \<and>
     batch (3 + 1) (text_as_ids info) = [[0, 1, 2, 0], [1, 2, 0, 1]] \<and>
     drop (2 * (3 + 1)) (text_as_ids info) = [2]"
proof -
  let ?info = "\<lparr>vocab = codepoints ''abc'', char2id = enumerate_dict (codepoints ''abc''),
           id2char = [codepoints ''a'', codepoints ''b'', codepoints ''c''],
           text_as_ids = [0, 1, 2, 0, 1, 2, 0, 1, 2]\<rparr>"
  have m: "map (char2id ?info) (codepoints ''abc'') = [Some 0, Some 1, Some 2]"
    by (simp add: enumerate_dict_def codepoints_abc)
  have "distinct (codepoints ''abc'')" by (simp add: codepoints_abc)
  then have d: "dom (char2id ?info) = set (codepoints ''abc'')"
    using dom_enumerate_dict [of "codepoints ''abc''"] by simp
  have b: "batch (3 + 1) (text_as_ids ?info) = [[0, 1, 2, 0], [1, 2, 0, 1]]"
    using batch_abc by (simp only: info.simps)
  have r: "drop (2 * (3 + 1)) (text_as_ids ?info) = [2]"
    by simp
  have v: "vocab ?info = codepoints ''abc''" by simp
  have i: "id2char ?info = [codepoints ''a'', codepoints ''b'', codepoints ''c'']" by simp
  have t: "text_as_ids ?info = [0, 1, 2, 0, 1, 2, 0, 1, 2]" by simp
  show ?thesis
    by (rule exI [where x = ?info]) (intro conjI dataset_abc m d b r v i t)
qed

text \<open>
  Claim C8, as the spec has it, with one window only: the dataset is not the single
  pair \<open>([0,1,2], [1,2,0])\<close>, it has two pairs.
\<close>

theorem abcabcabc_one_window_counterexample:
  "map_sum id fst (get_dataset_and_info 3 (codepoints ''abcabcabc'')) \<noteq>
     Inr [([0, 1, 2], [1, 2, 0])] \<and>
   map_sum id (length \<circ> fst) (get_dataset_and_info 3 (codepoints ''abcabcabc'')) = Inr 2"
  by (simp add: dataset_abc)

section \<open>Properties of the sampling loop\<close>


lemma generate_loop_feeds_char_ids:
  "generate_loop model cat i2c ids n (s, r, g) = Inr (s', r', g') \<Longrightarrow>
   s' = ((\<lambda>s. fst (model s ids)) ^^ n) s"
proof (induction n arbitrary: s r g)
  case 0
  then show ?case by simp
next
  case (Suc n)
  from Suc.prems obtain s1 r1 c where
    step: "generate_loop model cat i2c ids n (s1, r1, g @ [c]) = Inr (s', r', g')"
    and s1: "s1 = fst (model s ids)"
    by (auto split: prod.splits sum.splits)
  from Suc.IH [OF step] s1 funpow_swap1 [of "\<lambda>s. fst (model s ids)" n s] show ?case
    by simp
qed




lemma recording_model_funpow:
  "((\<lambda>s. fst (recording_model s ids)) ^^ n) s = s @ replicate n ids"
proof (induction n arbitrary: s)
  case 0
  then show ?case by simp
next
  case (Suc n)
  have "((\<lambda>s. fst (recording_model s ids)) ^^ Suc n) s =
      ((\<lambda>s. fst (recording_model s ids)) ^^ n) (fst (recording_model s ids))"
    by (simp only: funpow_Suc_right comp_apply)
  also have "\<dots> = (s @ [ids]) @ replicate n ids"
    unfolding Suc.IH by (simp add: recording_model_def)
  finally show ?case by (simp add: replicate_app_Cons_same)
qed

lemma enumerate_dict_ab:
  "enumerate_dict ''ab'' CHR ''a'' = Some 0" "enumerate_dict ''ab'' CHR ''b'' = Some 1"
  "enumerate_dict ''ab'' CHR ''z'' = None"
  by (simp_all add: enumerate_dict_def)

lemma dom_enumerate_dict_ab: "dom (enumerate_dict ''ab'') = set ''ab''"
  by (rule dom_enumerate_dict) simp


text \<open>
  Every iteration calls the model on \<^verbatim>\<open>char_ids\<close>, the encoded seed: the recurrent
  state a run leaves behind is the reset state after \<open>num_generate\<close> calls on the
  encoded seed.
\<close>

lemma generate_run_feeds_seed:
  assumes "generate_run model z cat s r start_string c2i i2c n = Inr (out, s', r')"
  shows "\<exists>char_ids. chars_to_ids c2i start_string = Inr char_ids \<and>
           s' = ((\<lambda>s. fst (model s char_ids)) ^^ nat n) z"
proof -
  from assms obtain char_ids g where ids: "chars_to_ids c2i start_string = Inr char_ids"
    and loop: "generate_loop model cat i2c char_ids (nat n) (z, r, []) = Inr (s', r', g)"
    by (auto simp: generate_run_def split: sum.splits prod.splits)
  from generate_loop_feeds_char_ids [OF loop] ids show ?thesis by simp
qed

text \<open>
  Claim C1 says that the first iteration feeds the whole encoded seed to the model and
  every later iteration the single id drawn last. The code feeds the whole encoded seed
  in every iteration: for the seed \<open>ab\<close> with the ids \<open>[0, 1]\<close> and three iterations,
  the model that records its inputs has been fed \<open>[0, 1]\<close> three times, where the
  claim has \<open>[0, 1]\<close>, \<open>[0]\<close>, \<open>[1]\<close> (the ids of the characters \<open>a\<close> and \<open>b\<close>
  drawn first).
\<close>

theorem generate_text_feeds_whole_seed_each_iteration:
  "generate_run recording_model [] counter_sampler [] 0 ''ab'' (enumerate_dict ''ab'')
     [''a'', ''b''] 3 =
     Inr (''ababa'', [[0, 1], [0, 1], [0, 1]], 3)"
  by (simp add: generate_run_def enumerate_dict_ab eval_nat_numeral recording_model_def
      counter_sampler_def last_position_def getitem_def)

text \<open>
  Claim C7. If a character of the seed is not a key of \<^verbatim>\<open>char2id\<close>, the encoding
  of the seed raises \<^verbatim>\<open>KeyError\<close> and so does \<^verbatim>\<open>generate_text\<close>, whatever the
  model, the sampler and the requested length are: nothing is generated and no string
  is returned. If every character of the seed is a key, the encoding returns the ids of
  the characters.
\<close>

theorem seed_outside_vocab_KeyError:
  "(\<not> set start_string \<subseteq> dom c2i \<longrightarrow>
      chars_to_ids c2i start_string = Inl KeyError \<and>
      generate_run model z categorical s r start_string c2i i2c num_generate = Inl KeyError \<and>
      generate_text model z categorical s r start_string c2i i2c num_generate = Inl KeyError) \<and>
   (set start_string \<subseteq> dom c2i \<longrightarrow>
      chars_to_ids c2i start_string = Inr (map (\<lambda>c. the (c2i c)) start_string))"
proof (intro conjI impI)
  assume "\<not> set start_string \<subseteq> dom c2i"
  then obtain c where "c \<in> set start_string" "c2i c = None" by auto
  then show k: "chars_to_ids c2i start_string = Inl KeyError" by (rule chars_to_ids_KeyError)
  then show r: "generate_run model z categorical s r start_string c2i i2c num_generate = Inl KeyError"
    by (simp add: generate_run_def)
  then show "generate_text model z categorical s r start_string c2i i2c num_generate = Inl KeyError"
    by (simp add: generate_text_def)
next
  assume "set start_string \<subseteq> dom c2i"
  then show "chars_to_ids c2i start_string = Inr (map (\<lambda>c. the (c2i c)) start_string)"
    by (rule chars_to_ids_total)
qed

theorem seed_outside_vocab_KeyError_witness:
  "chars_to_ids (enumerate_dict ''ab'') ''az'' = Inl KeyError \<and>
   generate_text recording_model [] counter_sampler [] 0 ''az'' (enumerate_dict ''ab'')
     [''a'', ''b''] 3 =
     Inl KeyError \<and>
   chars_to_ids (enumerate_dict ''ab'') ''ba'' = Inr [1, 0]"
proof -
  have out: "\<not> set ''az'' \<subseteq> dom (enumerate_dict ''ab'')"
    by (simp add: dom_enumerate_dict_ab)
  have inside: "set ''ba'' \<subseteq> dom (enumerate_dict ''ab'')"
    by (simp add: dom_enumerate_dict_ab)
  from out seed_outside_vocab_KeyError
    [of "''az''" "enumerate_dict ''ab''" recording_model "[]" counter_sampler "[]" 0
     "[''a'', ''b'']" 3]
  have a: "chars_to_ids (enumerate_dict ''ab'') ''az'' = Inl KeyError \<and>
   generate_text recording_model [] counter_sampler [] 0 ''az'' (enumerate_dict ''ab'')
     [''a'', ''b''] 3 =
     Inl KeyError" by blast
  from inside seed_outside_vocab_KeyError
    [of "''ba''" "enumerate_dict ''ab''" recording_model "[]" counter_sampler "[]" 0
     "[''a'', ''b'']" 3]
  have "chars_to_ids (enumerate_dict ''ab'') ''ba'' =
      Inr (map (\<lambda>c. the (enumerate_dict ''ab'' c)) ''ba'')" by blast
  then have "chars_to_ids (enumerate_dict ''ab'') ''ba'' = Inr [1, 0]"
    by (simp add: enumerate_dict_ab)
  with a show ?thesis by blast
qed







text \<open>
  With the \<^verbatim>\<open>id2char\<close> of a text that has the character U+0000, a drawn id 0 adds
  the empty string: for the seed \<open>a\<close> and the draws 0 and 1 the run of length 2
  returns the seed followed by one character.
\<close>

lemma generate_text_NUL_vocabulary:
  "generate_text recording_model [] counter_sampler [] 0 [97]
     (enumerate_dict [0, 97]) (np_array [0, 97]) 2 = Inr [97, 97]"
  by (simp add: generate_text_def generate_run_def enumerate_dict_def np_array_def
      eval_nat_numeral recording_model_def counter_sampler_def last_position_def getitem_def)

section \<open>Determinism of the sampling\<close>

inductive_cases generate_steps_zeroE: "generate_steps model_rel cat_rel i2c ids 0 st res"

inductive_cases generate_steps_SucE: "generate_steps model_rel cat_rel i2c ids (Suc n) (s, r, g) res"

lemma generate_steps_Suc_cases:
  assumes "generate_steps model_rel cat_rel i2c ids (Suc n) (s, r, g) res"
  obtains (slice_fails) s2 ys2 e2 where "res = Inl e2" "model_rel s ids (s2, ys2)"
      "last_position ys2 = Inl e2"
    | (index_fails) s2 ys2 Y2 p2 r2 e2 where "res = Inl e2" "model_rel s ids (s2, ys2)"
      "last_position ys2 = Inr Y2" "cat_rel r Y2 (p2, r2)" "getitem i2c p2 = Inl e2"
    | (goes_on) s2 ys2 Y2 p2 r2 c2 where "model_rel s ids (s2, ys2)"
      "last_position ys2 = Inr Y2" "cat_rel r Y2 (p2, r2)" "getitem i2c p2 = Inr c2"
      "generate_steps model_rel cat_rel i2c ids n (s2, r2, g @ [c2]) res"
  using assms by (rule generate_steps_SucE)

lemma generate_steps_deterministic:
  assumes sv_model: "\<And>s ids a b. model_rel s ids a \<Longrightarrow> model_rel s ids b \<Longrightarrow> a = b"
      and sv_cat: "\<And>r Y a b. cat_rel r Y a \<Longrightarrow> cat_rel r Y b \<Longrightarrow> a = b"
      and first: "generate_steps model_rel cat_rel i2c ids n st res1"
      and second: "generate_steps model_rel cat_rel i2c ids n st res2"
  shows "res1 = res2"
  using first second
proof (induction arbitrary: res2 rule: generate_steps.induct)
  case (finished st)
  then show ?case by (auto elim: generate_steps_zeroE)
next
  case (no_position s s' ys e n r g)
  from no_position.prems show ?case
  proof (cases rule: generate_steps_Suc_cases)
    case (slice_fails s2 ys2 e2)
    with no_position.hyps sv_model [of s ids "(s', ys)" "(s2, ys2)"] show ?thesis by simp
  next
    case (index_fails s2 ys2 Y2 p2 r2 e2)
    with no_position.hyps sv_model [of s ids "(s', ys)" "(s2, ys2)"] show ?thesis by simp
  next
    case (goes_on s2 ys2 Y2 p2 r2 c2)
    with no_position.hyps sv_model [of s ids "(s', ys)" "(s2, ys2)"] show ?thesis by simp
  qed
next
  case (bad_index s s' ys Y r p r' e n g)
  from bad_index.prems show ?case
  proof (cases rule: generate_steps_Suc_cases)
    case (slice_fails s2 ys2 e2)
    with bad_index.hyps sv_model [of s ids "(s', ys)" "(s2, ys2)"] show ?thesis by simp
  next
    case (index_fails s2 ys2 Y2 p2 r2 e2)
    with bad_index.hyps sv_model [of s ids "(s', ys)" "(s2, ys2)"]
    have "Y2 = Y" by simp
    with index_fails bad_index.hyps sv_cat [of r Y "(p, r')" "(p2, r2)"] show ?thesis by simp
  next
    case (goes_on s2 ys2 Y2 p2 r2 c2)
    with bad_index.hyps sv_model [of s ids "(s', ys)" "(s2, ys2)"]
    have "Y2 = Y" by simp
    with goes_on bad_index.hyps sv_cat [of r Y "(p, r')" "(p2, r2)"] show ?thesis by simp
  qed
next
  case (iteration s s' ys Y r p r' c n g res)
  from iteration.prems show ?case
  proof (cases rule: generate_steps_Suc_cases)
    case (slice_fails s2 ys2 e2)
    with iteration.hyps sv_model [of s ids "(s', ys)" "(s2, ys2)"] show ?thesis by simp
  next
    case (index_fails s2 ys2 Y2 p2 r2 e2)
    with iteration.hyps sv_model [of s ids "(s', ys)" "(s2, ys2)"]
    have "Y2 = Y" by simp
    with index_fails iteration.hyps sv_cat [of r Y "(p, r')" "(p2, r2)"] show ?thesis by simp
  next
    case (goes_on s2 ys2 Y2 p2 r2 c2)
    with iteration.hyps sv_model [of s ids "(s', ys)" "(s2, ys2)"]
    have eq: "s2 = s'" "Y2 = Y" by simp_all
    with goes_on iteration.hyps sv_cat [of r Y "(p, r')" "(p2, r2)"]
    have "p2 = p" "r2 = r'" by simp_all
    with goes_on eq iteration.hyps
    have "generate_steps model_rel cat_rel i2c ids n (s', r', g @ [c]) res2"
      by simp
    then show ?thesis by (rule iteration.IH)
  qed
qed

text \<open>
  For a model and a sampler that are functions, the relation is the function
  \<^verbatim>\<open>generate_text\<close> above.
\<close>

lemma generate_steps_as_relation:
  "generate_steps (as_relation model) (as_relation cat) i2c ids n st
     (generate_loop model cat i2c ids n st)"
proof (induction n arbitrary: st)
  case 0
  show ?case by (simp add: generate_steps.finished)
next
  case (Suc n)
  obtain s r g where st: "st = (s, r, g)" by (cases st) auto
  obtain s' ys where m: "model s ids = (s', ys)" by (cases "model s ids") auto
  then have mr: "as_relation model s ids (s', ys)" by (simp add: as_relation_def)
  show ?case
  proof (cases "last_position ys")
    case (Inl e)
    with m have "generate_loop model cat i2c ids (Suc n) (s, r, g) = Inl e" by simp
    with generate_steps.no_position [where model_rel = "as_relation model", OF mr Inl] show ?thesis unfolding st by simp
  next
    case (Inr Y)
    obtain p r' where c: "cat r Y = (p, r')" by (cases "cat r Y") auto
    then have cr: "as_relation cat r Y (p, r')" by (simp add: as_relation_def)
    show ?thesis
    proof (cases "getitem i2c p")
      case (Inl e)
      with m Inr c have "generate_loop model cat i2c ids (Suc n) (s, r, g) = Inl e" by simp
      with generate_steps.bad_index [where model_rel = "as_relation model" and categorical_rel = "as_relation cat", OF mr Inr cr Inl] show ?thesis unfolding st by simp
    next
      case inr: (Inr ch)
      with m Inr c have "generate_loop model cat i2c ids (Suc n) (s, r, g) =
          generate_loop model cat i2c ids n (s', r', g @ [ch])" by simp
      with generate_steps.iteration [where model_rel = "as_relation model" and categorical_rel = "as_relation cat", OF mr Inr cr inr Suc.IH [of "(s', r', g @ [ch])"]]
      show ?thesis unfolding st by simp
    qed
  qed
qed

lemma as_relation_single_valued: "as_relation f a b x \<Longrightarrow> as_relation f a b y \<Longrightarrow> x = y"
  by (simp add: as_relation_def)

lemma generate_steps_as_relation_iff:
  "generate_steps (as_relation model) (as_relation cat) i2c ids n st res \<longleftrightarrow>
   res = generate_loop model cat i2c ids n st"
proof
  assume "generate_steps (as_relation model) (as_relation cat) i2c ids n st res"
  with as_relation_single_valued as_relation_single_valued
  show "res = generate_loop model cat i2c ids n st"
    using generate_steps_as_relation by (rule generate_steps_deterministic)
next
  assume "res = generate_loop model cat i2c ids n st"
  then show "generate_steps (as_relation model) (as_relation cat) i2c ids n st res"
    by (simp add: generate_steps_as_relation)
qed

lemma generate_text_rel_as_relation_iff:
  "generate_text_rel (as_relation model) z (as_relation cat) s r start_string c2i i2c n res \<longleftrightarrow>
   res = generate_text model z cat s r start_string c2i i2c n"
proof
  assume "generate_text_rel (as_relation model) z (as_relation cat) s r start_string c2i i2c n res"
  then show "res = generate_text model z cat s r start_string c2i i2c n"
  proof (cases rule: generate_text_rel.cases)
    case (seed_error e)
    then show ?thesis by (simp add: generate_text_def generate_run_def)
  next
    case (loop_error ids e)
    then have "generate_loop model cat i2c ids (nat n) (z, r, []) = Inl e"
      by (simp add: generate_steps_as_relation_iff)
    with loop_error show ?thesis by (simp add: generate_text_def generate_run_def)
  next
    case (returned ids s' r' g)
    then have "generate_loop model cat i2c ids (nat n) (z, r, []) = Inr (s', r', g)"
      by (simp add: generate_steps_as_relation_iff)
    with returned show ?thesis by (simp add: generate_text_def generate_run_def)
  qed
next
  assume res: "res = generate_text model z cat s r start_string c2i i2c n"
  show "generate_text_rel (as_relation model) z (as_relation cat) s r start_string c2i i2c n res"
  proof (cases "chars_to_ids c2i start_string")
    case (Inl e)
    with res have "res = Inl e" by (simp add: generate_text_def generate_run_def)
    with Inl show ?thesis by (simp add: generate_text_rel.seed_error)
  next
    case (Inr ids)
    show ?thesis
    proof (cases "generate_loop model cat i2c ids (nat n) (z, r, [])")
      case (Inl e)
      with Inr res have "res = Inl e" by (simp add: generate_text_def generate_run_def)
      moreover from Inl
      have "generate_steps (as_relation model) (as_relation cat) i2c ids (nat n) (z, r, []) (Inl e)"
        by (simp add: generate_steps_as_relation_iff)
      ultimately show ?thesis using Inr by (simp add: generate_text_rel.loop_error)
    next
      case inr: (Inr st')
      obtain s' r' g where st': "st' = (s', r', g)" by (cases st') auto
      with Inr inr res have "res = Inr (start_string @ concat g)"
        by (simp add: generate_text_def generate_run_def)
      moreover from inr st'
      have "generate_steps (as_relation model) (as_relation cat) i2c ids (nat n) (z, r, [])
          (Inr (s', r', g))"
        by (simp add: generate_steps_as_relation_iff)
      ultimately show ?thesis using Inr by (simp add: generate_text_rel.returned)
    qed
  qed
qed

text \<open>
  Claim C9. When the weights fix what the model answers in a state to a sequence, and
  the random source fixes what the sampler draws, two runs of \<^verbatim>\<open>generate_text\<close>
  with the same seed string, the same mappings and the same length, starting from the
  same state of the random source, give the same result, whatever recurrent states
  \<open>s1\<close> and \<open>s2\<close> the model arrives with: the same string, or the same error.
\<close>

theorem generate_text_deterministic:
  assumes fixed_weights: "\<forall>s ids a b. model_rel s ids a \<longrightarrow> model_rel s ids b \<longrightarrow> a = b"
      and fixed_seed: "\<forall>r Y a b. categorical_rel r Y a \<longrightarrow> categorical_rel r Y b \<longrightarrow> a = b"
      and first: "generate_text_rel model_rel z categorical_rel s1 r start_string c2i i2c
         num_generate res1"
      and second: "generate_text_rel model_rel z categorical_rel s2 r start_string c2i i2c
         num_generate res2"
  shows "res1 = res2"
proof -
  have sv_model: "\<And>s ids a b. model_rel s ids a \<Longrightarrow> model_rel s ids b \<Longrightarrow> a = b"
    using fixed_weights by blast
  have sv_cat: "\<And>r Y a b. categorical_rel r Y a \<Longrightarrow> categorical_rel r Y b \<Longrightarrow> a = b"
    using fixed_seed by blast
  have det: "a = b"
    if "generate_steps model_rel categorical_rel i2c ids (nat num_generate) (z, r, []) a"
      and "generate_steps model_rel categorical_rel i2c ids (nat num_generate) (z, r, []) b"
    for ids a b
    using sv_model sv_cat that by (rule generate_steps_deterministic)
  from first show ?thesis
  proof (cases rule: generate_text_rel.cases)
    case (seed_error e)
    with second show ?thesis by (cases rule: generate_text_rel.cases) simp_all
  next
    case (loop_error ids e)
    from second show ?thesis
    proof (cases rule: generate_text_rel.cases)
      case (seed_error e2)
      with loop_error show ?thesis by simp
    next
      case second_error: (loop_error ids2 e2)
      with loop_error det [of ids "Inl e" "Inl e2"]
      show ?thesis by simp
    next
      case (returned ids2 s2' r2' g2)
      with loop_error det [of ids "Inl e" "Inr (s2', r2', g2)"]
      show ?thesis by simp
    qed
  next
    case (returned ids s' r' g)
    from second show ?thesis
    proof (cases rule: generate_text_rel.cases)
      case (seed_error e2)
      with returned show ?thesis by simp
    next
      case (loop_error ids2 e2)
      with returned det [of ids "Inr (s', r', g)" "Inl e2"]
      show ?thesis by simp
    next
      case second_returned: (returned ids2 s2' r2' g2)
      with returned
        det [of ids "Inr (s', r', g)" "Inr (s2', r2', g2)"]
      show ?thesis by simp
    qed
  qed
qed

lemma generate_text_ab_from_any_state:
  "generate_text recording_model [] counter_sampler s 0 ''ab'' (enumerate_dict ''ab'')
     [''a'', ''b''] 3 = Inr ''ababa''"
  by (simp add: generate_text_def generate_run_def enumerate_dict_ab eval_nat_numeral
      recording_model_def counter_sampler_def last_position_def getitem_def)

theorem generate_text_deterministic_witness:
  "generate_text_rel (as_relation recording_model) [] (as_relation counter_sampler)
     [[0, 1], [0, 1], [0, 1]] 0 ''ab'' (enumerate_dict ''ab'') [''a'', ''b''] 3 (Inr ''ababa'') \<and>
   generate_text_rel (as_relation recording_model) [] (as_relation counter_sampler)
     [] 0 ''ab'' (enumerate_dict ''ab'') [''a'', ''b''] 3
     (generate_text recording_model [] counter_sampler [] 0 ''ab'' (enumerate_dict ''ab'')
        [''a'', ''b''] 3) \<and>
   Inr ''ababa'' =
     generate_text recording_model [] counter_sampler [] 0 ''ab'' (enumerate_dict ''ab'')
        [''a'', ''b''] 3"
proof -
  have w: "\<forall>s ids a b. as_relation recording_model s ids a \<longrightarrow>
      as_relation recording_model s ids b \<longrightarrow> a = b"
    by (simp add: as_relation_def)
  have c: "\<forall>r Y a b. as_relation counter_sampler r Y a \<longrightarrow>
      as_relation counter_sampler r Y b \<longrightarrow> a = b"
    by (simp add: as_relation_def)
  have first: "generate_text_rel (as_relation recording_model) [] (as_relation counter_sampler)
     [[0, 1], [0, 1], [0, 1]] 0 ''ab'' (enumerate_dict ''ab'') [''a'', ''b''] 3 (Inr ''ababa'')"
    by (simp only: generate_text_rel_as_relation_iff generate_text_ab_from_any_state)
  have second: "generate_text_rel (as_relation recording_model) [] (as_relation counter_sampler)
     [] 0 ''ab'' (enumerate_dict ''ab'') [''a'', ''b''] 3
     (generate_text recording_model [] counter_sampler [] 0 ''ab'' (enumerate_dict ''ab'')
        [''a'', ''b''] 3)"
    by (simp only: generate_text_rel_as_relation_iff)
  from generate_text_deterministic [OF w c first second] first second show ?thesis
    by (intro conjI)
qed

text \<open>
  With a sampler that may draw either id, two runs on the same arguments return
  different strings.
\<close>

lemma free_sampler_two_outputs:
  "generate_text_rel (as_relation recording_model) [] free_sampler [] 0 ''ab''
     (enumerate_dict ''ab'') [''a'', ''b''] 1 (Inr ''aba'') \<and>
   generate_text_rel (as_relation recording_model) [] free_sampler [] 0 ''ab''
     (enumerate_dict ''ab'') [''a'', ''b''] 1 (Inr ''abb'')"
proof -
  have enc: "chars_to_ids (enumerate_dict ''ab'') ''ab'' = Inr [0, 1]"
    by (simp add: enumerate_dict_ab)
  have m: "as_relation recording_model [] [0, 1] ([[0, 1]], [(), ()])"
    by (simp add: as_relation_def recording_model_def)
  have l: "last_position [(), ()] = Inr ()" by (simp add: last_position_def)
  have d0: "free_sampler 0 () (0, 1)" and d1: "free_sampler 0 () (1, 1)"
    by (simp_all add: free_sampler_def)
  have g0: "getitem [''a'', ''b''] 0 = Inr ''a''" and g1: "getitem [''a'', ''b''] 1 = Inr ''b''"
    by (simp_all add: getitem_def)
  have "generate_steps (as_relation recording_model) free_sampler [''a'', ''b''] [0, 1]
      (Suc 0) ([], 0, []) (Inr ([[0, 1]], 1, [] @ [''a'']))"
    by (rule generate_steps.iteration
        [where model_rel = "as_relation recording_model" and categorical_rel = free_sampler,
          OF m l d0 g0])
      (rule generate_steps.finished)
  then have s0: "generate_steps (as_relation recording_model) free_sampler [''a'', ''b''] [0, 1]
      (nat 1) ([], 0, []) (Inr ([[0, 1]], 1, [] @ [''a'']))"
    by simp
  have "generate_steps (as_relation recording_model) free_sampler [''a'', ''b''] [0, 1]
      (Suc 0) ([], 0, []) (Inr ([[0, 1]], 1, [] @ [''b'']))"
    by (rule generate_steps.iteration
        [where model_rel = "as_relation recording_model" and categorical_rel = free_sampler,
          OF m l d1 g1])
      (rule generate_steps.finished)
  then have s1: "generate_steps (as_relation recording_model) free_sampler [''a'', ''b''] [0, 1]
      (nat 1) ([], 0, []) (Inr ([[0, 1]], 1, [] @ [''b'']))"
    by simp
  from generate_text_rel.returned [OF enc s0] generate_text_rel.returned [OF enc s1]
  show ?thesis by simp
qed

end
